theory Spec2Isabelle
  imports Main "HOL-Library.Word" "HOL-Library.Log_Nat"
begin

unbundle bit_operations_syntax

section \<open>Library functions the checksum routine calls\<close>

text \<open>
  The routine \<^verbatim>\<open>crc16_wmbus(message: bytes) -> bytes\<close> of \<^verbatim>\<open>main.py\<close> receives the
  message as ASCII hex text, decodes it with \<^verbatim>\<open>int(message, 16)\<close>, divides, and returns
  \<^verbatim>\<open>hexlify(pack('<H', crc))\<close>. Python \<^verbatim>\<open>bytes\<close> are modelled as \<^typ>\<open>string\<close> (text)
  and \<^typ>\<open>8 word list\<close> (packed bytes), Python integers as \<^typ>\<open>int\<close>, and every
  exception as a value of \<open>error\<close>.
\<close>

datatype error = ValueError | StructError

subsection \<open>\<^verbatim>\<open>int(bytes, 16)\<close>\<close>

text \<open>The whitespace test applied to bytes: space, and the control characters 9 to 13.\<close>

definition py_isspace :: "char \<Rightarrow> bool" where
  "py_isspace c \<longleftrightarrow> c = CHR '' '' \<or> (9 \<le> (of_char c :: nat) \<and> (of_char c :: nat) \<le> 13)"

text \<open>The digit table: 0 to 9, then letters of either case from 10 on, 37 for anything else.\<close>

definition digit_value :: "char \<Rightarrow> nat" where
  "digit_value c =
     (let k = (of_char c :: nat) in
      if 48 \<le> k \<and> k \<le> 57 then k - 48
      else if 97 \<le> k \<and> k \<le> 122 then k - 87
      else if 65 \<le> k \<and> k \<le> 90 then k - 55
      else 37)"

text \<open>An optional sign directly before the digits.\<close>

definition strip_sign :: "string \<Rightarrow> int \<times> string" where
  "strip_sign s =
     (case s of
        [] \<Rightarrow> (1, s)
      | c # r \<Rightarrow> if c = CHR ''+'' then (1, r) else if c = CHR ''-'' then (- 1, r) else (1, s))"

text \<open>With base 16 a prefix \<^verbatim>\<open>0x\<close> or \<^verbatim>\<open>0X\<close> is skipped, and one underscore after it.\<close>

definition strip_prefix16 :: "string \<Rightarrow> string" where
  "strip_prefix16 s =
     (case s of
        c0 # c1 # r \<Rightarrow>
          if c0 = CHR ''0'' \<and> (c1 = CHR ''x'' \<or> c1 = CHR ''X'')
          then (case r of [] \<Rightarrow> r | u # r' \<Rightarrow> if u = CHR ''_'' then r' else r)
          else s
      | _ \<Rightarrow> s)"

text \<open>
  The digit scan: digits and single underscores between them are consumed, the value is
  accumulated most significant digit first; two underscores in a row or an underscore at
  the end are an error. The scan returns the value and the unread rest.
\<close>

fun scan_digits :: "char \<Rightarrow> int \<Rightarrow> string \<Rightarrow> error + (int \<times> string)" where
  "scan_digits prev acc [] = (if prev = CHR ''_'' then Inl ValueError else Inr (acc, []))"
| "scan_digits prev acc (c # cs) =
     (if c = CHR ''_'' then
        (if prev = CHR ''_'' then Inl ValueError else scan_digits c acc cs)
      else if digit_value c < 16 then scan_digits c (acc * 16 + int (digit_value c)) cs
      else if prev = CHR ''_'' then Inl ValueError
      else Inr (acc, c # cs))"

text \<open>
  \<^verbatim>\<open>int(message, hex_radix)\<close> with \<^verbatim>\<open>hex_radix = 16\<close> on bytes, in the order of the
  parser: leading white space is skipped, then a sign, then the prefix; the literal may
  not start with an underscore; the digits are scanned; at least one character must have
  been read; trailing white space is skipped; anything left over (a NUL byte too) is an
  error. Every error is \<^verbatim>\<open>ValueError\<close>.
\<close>

definition py_int16 :: "string \<Rightarrow> error + int" where
  "py_int16 s =
     (let s1 = dropWhile py_isspace s;
          (sign, s2) = strip_sign s1;
          s3 = strip_prefix16 s2
      in if s3 \<noteq> [] \<and> hd s3 = CHR ''_'' then Inl ValueError
         else (case scan_digits (CHR 0x00) 0 s3 of
                 Inl e \<Rightarrow> Inl e
               | Inr (v, rest) \<Rightarrow>
                   if length rest = length s3 then Inl ValueError
                   else if dropWhile py_isspace rest \<noteq> [] then Inl ValueError
                   else Inr (sign * v)))"

subsection \<open>\<^verbatim>\<open>bin\<close>, \<^verbatim>\<open>range\<close>, \<^verbatim>\<open>pack('<H', _)\<close> and \<^verbatim>\<open>hexlify\<close>\<close>

text \<open>
  \<^verbatim>\<open>bin(m)\<close>: the binary digits of the magnitude, most significant first (\<^verbatim>\<open>0\<close> for
  zero), after \<^verbatim>\<open>0b\<close>, or after \<^verbatim>\<open>-0b\<close> for a negative number.
\<close>

fun bin_digits :: "nat \<Rightarrow> string" where
  "bin_digits n =
     (if n < 2 then [if n = 0 then CHR ''0'' else CHR ''1'']
      else bin_digits (n div 2) @ [if even n then CHR ''0'' else CHR ''1''])"

declare bin_digits.simps [simp del]

definition bin :: "int \<Rightarrow> string" where
  "bin m = (if m < 0 then ''-0b'' @ bin_digits (nat (- m)) else ''0b'' @ bin_digits (nat m))"

text \<open>
  \<^verbatim>\<open>range(start, stop, -1)\<close> for \<open>start\<close> and \<open>stop\<close> that are not negative: \<open>start\<close>,
  \<open>start - 1\<close>, ... down to \<open>stop + 1\<close>; empty when \<open>start \<le> stop\<close>.
\<close>

definition range_down :: "nat \<Rightarrow> nat \<Rightarrow> nat list" where
  "range_down start stop = rev [stop + 1 ..< start + 1]"

text \<open>An unsigned 16-bit value, low byte first; a value out of range is an error.\<close>

definition pack_le_H :: "int \<Rightarrow> error + 8 word list" where
  "pack_le_H v =
     (if 0 \<le> v \<and> v \<le> 65535 then Inr [word_of_int v, word_of_int (drop_bit 8 v)]
      else Inl StructError)"

text \<open>\<^verbatim>\<open>hexlify\<close>: two lower-case hex digits for each byte, the high one first.\<close>

definition hex_char :: "nat \<Rightarrow> char" where
  "hex_char k = ''0123456789abcdef'' ! k"

definition hexlify :: "8 word list \<Rightarrow> string" where
  "hexlify bs = concat (map (\<lambda>b. [hex_char (unat (drop_bit 4 b)), hex_char (unat (b AND 0xF))]) bs)"

section \<open>The checksum routine\<close>

text \<open>One pass of the loop body at bit position \<open>n\<close> (lines 61 to 67).\<close>

definition division_step :: "int \<Rightarrow> nat \<Rightarrow> nat \<Rightarrow> int \<Rightarrow> int" where
  "division_step g g_bitlen n crc =
     (if crc AND push_bit n 1 \<noteq> 0 then
        (let g_shift = push_bit (n - g_bitlen) g in (crc XOR g_shift) mod 2 ^ n)
      else crc)"

text \<open>The value of \<open>crc\<close> when the loop of line 59 ends.\<close>

definition division_loop :: "int \<Rightarrow> nat \<Rightarrow> nat \<Rightarrow> int \<Rightarrow> int" where
  "division_loop g g_bitlen m_bitlen crc =
     fold (division_step g g_bitlen) (range_down (m_bitlen - 1) (g_bitlen - 1)) crc"

text \<open>Lines 47 to 67: the remainder before the complement, from the decoded message.\<close>

definition raw_crc :: "int \<Rightarrow> int" where
  "raw_crc v =
     (let crc_bits = 16;
          g = 0x3d65;
          m = push_bit crc_bits v;
          crc = m;
          m_bitlen = length (drop 2 (bin m));
          g_bitlen = crc_bits
      in division_loop g g_bitlen m_bitlen crc)"

text \<open>
  The whole routine: the decoding of line 51, the division, the complement of line 72,
  and the packing and hex encoding of line 75. An exception of a library call ends it.
\<close>

definition crc16_wmbus :: "string \<Rightarrow> error + string" where
  "crc16_wmbus message =
     (case py_int16 message of
        Inl e \<Rightarrow> Inl e
      | Inr v \<Rightarrow>
          (let crc = raw_crc v XOR 0xFFFF in
           case pack_le_H crc of
             Inl e \<Rightarrow> Inl e
           | Inr packed \<Rightarrow> Inr (hexlify packed)))"

section \<open>Long division as the specification words it\<close>

text \<open>
  The specification's algorithm, step 3: at bit position \<open>n\<close>, if the remainder has a 1
  at bit \<open>n\<close>, XOR it with the generator polynomial, its \<open>x^16\<close> term included
  (\<open>0x13D65\<close>), shifted so that this top bit is at \<open>n\<close>; otherwise leave it unchanged.
\<close>

definition spec_step :: "nat \<Rightarrow> int \<Rightarrow> int" where
  "spec_step n r = (if bit r n then r XOR push_bit (n - 16) 0x13D65 else r)"

text \<open>Step 2: from the most significant bit of the shifted message down to position 16.\<close>

definition spec_positions :: "int \<Rightarrow> nat list" where
  "spec_positions m = rev [16 ..< nat (bitlen m)]"

text \<open>Steps 1 to 4: the raw CRC is the low 16 bits of what the division leaves.\<close>

definition spec_division :: "int \<Rightarrow> int" where
  "spec_division message = (let m = push_bit 16 message in take_bit 16 (fold spec_step (spec_positions m) m))"

text \<open>The same steps from any starting position \<open>L - 1\<close> down to 16.\<close>

definition reduce :: "nat \<Rightarrow> int \<Rightarrow> int" where
  "reduce L r = fold spec_step (rev [16 ..< L]) r"

section \<open>Characters the decoder lets through\<close>

text \<open>
  Besides the sixteen hex digits of either case, \<^verbatim>\<open>int(_, 16)\<close> lets through white space
  around the literal, a sign, the \<^verbatim>\<open>x\<close> of a \<^verbatim>\<open>0x\<close> prefix and single underscores.
\<close>

definition tolerated_char :: "char \<Rightarrow> bool" where
  "tolerated_char c \<longleftrightarrow>
     digit_value c < 16 \<or> py_isspace c \<or> c \<in> set ''+-_xX''"

text \<open>
  The literals the decoder accepts, as a grammar. The digits: one or more hex digits,
  with a single underscore allowed between two of them.
\<close>

inductive digits16 :: "string \<Rightarrow> bool" where
  single: "digit_value c < 16 \<Longrightarrow> digits16 [c]"
| digit: "digit_value c < 16 \<Longrightarrow> digits16 ds \<Longrightarrow> digits16 (c # ds)"
| underscore: "digit_value c < 16 \<Longrightarrow> digits16 ds \<Longrightarrow> digits16 (c # CHR ''_'' # ds)"

code_pred digits16 .

text \<open>
  The literal: optional white space, an optional sign, an optional prefix \<^verbatim>\<open>0x\<close> or
  \<^verbatim>\<open>0X\<close> with at most one underscore after it, the digits, optional white space.
\<close>

definition literal16 :: "string \<Rightarrow> bool" where
  "literal16 s \<longleftrightarrow>
     (\<exists>ws1 sg pre ds ws2.
        s = ws1 @ sg @ pre @ ds @ ws2 \<and>
        (\<forall>c\<in>set ws1. py_isspace c) \<and>
        sg \<in> {[], ''+'', ''-''} \<and>
        pre \<in> {[], ''0x'', ''0X'', ''0x_'', ''0X_''} \<and>
        digits16 ds \<and>
        (\<forall>c\<in>set ws2. py_isspace c))"

section \<open>The loop, one position at a time\<close>

lemma division_loop_stop: "L \<le> 16 \<Longrightarrow> division_loop g 16 L crc = crc"
  by (auto simp add: division_loop_def range_down_def)

lemma division_loop_Suc:
  "16 \<le> n \<Longrightarrow> division_loop g 16 (Suc n) crc = division_loop g 16 n (division_step g 16 n crc)"
proof -
  assume n: "16 \<le> n"
  then have "rev [16 ..< Suc n] = n # rev [16 ..< n]" by simp
  moreover from n have "Suc (n - Suc 0) = n" by simp
  ultimately show ?thesis
    by (simp add: division_loop_def range_down_def)
qed

lemma division_step_bit:
  "division_step g gl n crc = (if bit crc n then take_bit n (crc XOR push_bit (n - gl) g) else crc)"
  by (simp add: division_step_def bit_iff_and_push_bit_not_eq_0 take_bit_eq_mod)

lemma take_bit_Suc_no_top:
  fixes c :: int
  assumes "take_bit (Suc n) c = c" "\<not> bit c n"
  shows "take_bit n c = c"
  using assms by (simp add: take_bit_Suc_from_most)

lemma division_step_bounded:
  "take_bit (Suc n) crc = crc \<Longrightarrow> take_bit n (division_step g gl n crc) = division_step g gl n crc"
  by (simp add: division_step_bit take_bit_Suc_no_top)

lemma division_loop_bounded:
  "16 \<le> L \<Longrightarrow> take_bit L crc = crc \<Longrightarrow>
     take_bit 16 (division_loop g 16 L crc) = division_loop g 16 L crc"
proof (induction L arbitrary: crc rule: dec_induct)
  case base
  then show ?case by (simp add: division_loop_stop)
next
  case (step n)
  then show ?case
    by (simp add: division_loop_Suc division_step_bounded)
qed


lemma bin_digits_bound: "n < 2 ^ length (bin_digits n)"
proof (induction n rule: bin_digits.induct)
  case (1 n)
  show ?case
  proof (cases "n < 2")
    case True
    then show ?thesis by (subst bin_digits.simps) simp
  next
    case False
    with 1 have "n div 2 < 2 ^ length (bin_digits (n div 2))" by simp
    then have "n < 2 * 2 ^ length (bin_digits (n div 2))" by linarith
    with False show ?thesis by (subst bin_digits.simps) simp
  qed
qed

lemma length_bin_digits: "length (bin_digits n) = (if n = 0 then 1 else floorlog 2 n)"
proof (induction n rule: bin_digits.induct)
  case (1 n)
  show ?case
  proof (cases "n < 2")
    case True
    have one: "floorlog 2 (Suc 0) = Suc 0"
      by (subst compute_floorlog) (simp add: floorlog_def)
    from True have "n = 0 \<or> n = Suc 0" by auto
    then show ?thesis
      by (subst bin_digits.simps) (auto simp: one)
  next
    case False
    then have "n div 2 \<noteq> 0" by simp
    with 1 False have "length (bin_digits (n div 2)) = floorlog 2 (n div 2)" by simp
    moreover from False have "floorlog 2 n = floorlog 2 (n div 2) + 1"
      by (subst compute_floorlog) simp
    moreover from False
    have "bin_digits n = bin_digits (n div 2) @ [if even n then CHR ''0'' else CHR ''1'']"
      by (subst bin_digits.simps) simp
    ultimately show ?thesis using False by simp
  qed
qed

lemma bin_digits_nonempty: "0 < length (bin_digits n)"
  by (subst bin_digits.simps) simp

lemma m_bitlen_nonneg: "0 \<le> m \<Longrightarrow> length (drop 2 (bin m)) = length (bin_digits (nat m))"
  by (simp add: bin_def)

lemma m_bitlen_neg: "m < 0 \<Longrightarrow> length (drop 2 (bin m)) = Suc (length (bin_digits (nat (- m))))"
  by (simp add: bin_def)

lemma take_bit_m_bitlen:
  assumes "0 \<le> m"
  shows "take_bit (length (drop 2 (bin m))) m = m"
proof -
  have "nat m < 2 ^ length (bin_digits (nat m))" by (rule bin_digits_bound)
  then have "int (nat m) < int (2 ^ length (bin_digits (nat m)))"
    by (simp only: of_nat_less_iff)
  with assms have "m < 2 ^ length (bin_digits (nat m))" by simp
  with assms have "take_bit (length (bin_digits (nat m))) m = m"
    by (simp add: take_bit_int_eq_self)
  then show ?thesis
    unfolding m_bitlen_nonneg [OF assms] .
qed

section \<open>The loop against the specification's division\<close>

lemma reduce_stop: "L \<le> 16 \<Longrightarrow> reduce L r = r"
  by (simp add: reduce_def)

lemma reduce_Suc: "16 \<le> n \<Longrightarrow> reduce (Suc n) r = reduce n (spec_step n r)"
  by (simp add: reduce_def)



lemma xor_cancel_common: "(t XOR e) XOR (p XOR e) = t XOR (p :: int)"
  by (rule bit_eqI) (auto simp: bit_xor_iff)

lemma poly_shift_split:
  assumes "16 \<le> n"
  shows "push_bit (n - 16) (0x13D65 :: int) = push_bit (n - 16) 0x3d65 XOR 2 ^ n"
proof -
  have "(0x13D65 :: int) = 0x3d65 XOR push_bit 16 1" by simp
  then have "push_bit (n - 16) (0x13D65 :: int)
      = push_bit (n - 16) 0x3d65 XOR push_bit (n - 16) (push_bit 16 1)"
    by (simp only: push_bit_xor)
  also have "push_bit (n - 16) (push_bit 16 (1::int)) = push_bit (n - 16 + 16) 1"
    by (simp only: push_bit_push_bit)
  also from assms have "n - 16 + 16 = n" by simp
  finally show ?thesis by (simp only: push_bit_of_1)
qed

lemma poly_shift_low:
  "16 \<le> n \<Longrightarrow> take_bit n (push_bit (n - 16) (0x3d65 :: int)) = push_bit (n - 16) 0x3d65"
proof -
  assume n: "16 \<le> n"
  have "take_bit 16 (0x3d65 :: int) = 0x3d65" by simp
  then have "push_bit (n - 16) (take_bit 16 (0x3d65 :: int)) = push_bit (n - 16) 0x3d65" by simp
  with n show ?thesis by (simp add: take_bit_push_bit del: push_bit_numeral)
qed

lemma division_step_spec:
  assumes n: "16 \<le> n" and c: "take_bit (Suc n) crc = crc"
  shows "division_step 0x3d65 16 n crc = spec_step n crc"
proof (cases "bit crc n")
  case False
  then show ?thesis by (simp add: division_step_bit spec_step_def)
next
  case True
  let ?p = "push_bit (n - 16) (0x3d65 :: int)"
  from c have bits: "k \<le> n" if "bit crc k" for k
    using that by (metis bit_take_bit_iff less_Suc_eq_le)
  have "crc = take_bit n crc XOR 2 ^ n"
    by (rule bit_eqI) (use True bits in \<open>auto simp: bit_simps dest: le_neq_implies_less\<close>)
  then have "crc XOR (?p XOR 2 ^ n) = (take_bit n crc XOR 2 ^ n) XOR (?p XOR 2 ^ n)"
    by simp
  also have "\<dots> = take_bit n crc XOR ?p"
    by (rule xor_cancel_common)
  also have "\<dots> = take_bit n (crc XOR ?p)"
    by (simp only: take_bit_xor poly_shift_low [OF n])
  finally have "crc XOR push_bit (n - 16) 0x13D65 = take_bit n (crc XOR ?p)"
    by (simp only: poly_shift_split [OF n])
  with True show ?thesis
    by (simp only: division_step_bit spec_step_def if_True)
qed

lemma division_loop_reduce:
  "16 \<le> L \<Longrightarrow> take_bit L crc = crc \<Longrightarrow> division_loop 0x3d65 16 L crc = reduce L crc"
proof (induction L arbitrary: crc rule: dec_induct)
  case base
  show ?case by (simp add: division_loop_stop reduce_stop)
next
  case (step n)
  from step.prems have "take_bit n (division_step 0x3d65 16 n crc) = division_step 0x3d65 16 n crc"
    by (rule division_step_bounded)
  then have "division_loop 0x3d65 16 n (division_step 0x3d65 16 n crc)
      = reduce n (division_step 0x3d65 16 n crc)"
    by (rule step.IH)
  with step.hyps step.prems show ?case
    by (simp only: division_loop_Suc reduce_Suc division_step_spec)
qed

lemma reduce_higher_start:
  assumes "take_bit L r = r" and "L \<le> L'"
  shows "reduce L' r = reduce L r"
  using assms(2)
proof (induction L' rule: dec_induct)
  case base
  show ?case ..
next
  case (step n)
  from assms(1) have "\<not> bit r n" if "L \<le> n"
    using that by (metis bit_take_bit_iff not_le)
  with step have idle: "spec_step n r = r" by (simp add: spec_step_def)
  show ?case
  proof (cases "16 \<le> n")
    case True
    with idle step show ?thesis by (simp add: reduce_Suc)
  next
    case False
    with step show ?thesis by (simp add: reduce_stop)
  qed
qed

lemma raw_crc_reduce:
  assumes "0 \<le> v" and "take_bit L (push_bit 16 v) = push_bit 16 v"
  shows "raw_crc v = reduce L (push_bit 16 v)"
proof -
  let ?m = "push_bit 16 v"
  let ?len = "length (drop 2 (bin ?m))"
  from assms(1) have m: "0 \<le> ?m" by simp
  then have own: "take_bit ?len ?m = ?m" by (rule take_bit_m_bitlen)
  have "raw_crc v = reduce ?len ?m"
  proof (cases "16 \<le> ?len")
    case True
    with own show ?thesis
      by (simp only: raw_crc_def Let_def division_loop_reduce)
  next
    case False
    then show ?thesis
      by (simp add: raw_crc_def Let_def division_loop_stop reduce_stop del: push_bit_numeral)
  qed
  also have "\<dots> = reduce (max ?len L) ?m"
    by (rule reduce_higher_start [OF own, symmetric]) simp
  also have "\<dots> = reduce L ?m"
    by (rule reduce_higher_start [OF assms(2)]) simp
  finally show ?thesis .
qed


section \<open>Single-bit changes of the message\<close>




section \<open>Range of the remainder, complement and packing\<close>

lemma bit_top_of_negative:
  fixes m :: int
  assumes "m < 0" and "- m < 2 ^ L"
  shows "bit m L"
proof -
  from assms have "0 \<le> NOT m" "NOT m < 2 ^ L"
    by (simp_all add: not_int_def)
  then have "take_bit L (NOT m) = NOT m"
    by (simp add: take_bit_int_eq_self)
  then have "\<not> bit (NOT m) L"
    by (metis bit_take_bit_iff less_irrefl)
  then show ?thesis by (simp add: bit_not_int_iff)
qed

lemma raw_crc_bounded: "take_bit 16 (raw_crc v) = raw_crc v"
proof (cases "0 \<le> v")
  case True
  let ?m = "push_bit 16 v"
  let ?len = "length (drop 2 (bin ?m))"
  from True have "0 \<le> ?m" by simp
  then have own: "take_bit ?len ?m = ?m" by (rule take_bit_m_bitlen)
  show ?thesis
  proof (cases "16 \<le> ?len")
    case True
    then show ?thesis
      using own by (simp only: raw_crc_def Let_def division_loop_bounded)
  next
    case False
    then have "take_bit 16 (take_bit ?len ?m) = take_bit ?len ?m"
      by (simp only: take_bit_take_bit)
    with False show ?thesis
      by (simp only: raw_crc_def Let_def own) (simp add: division_loop_stop del: push_bit_numeral)
  qed
next
  case False
  let ?m = "push_bit 16 v"
  let ?L = "length (bin_digits (nat (- ?m)))"
  from False have neg: "?m < 0" by simp
  then have len: "length (drop 2 (bin ?m)) = Suc ?L" by (rule m_bitlen_neg)
  have "nat (- ?m) < 2 ^ ?L" by (rule bin_digits_bound)
  then have "int (nat (- ?m)) < int (2 ^ ?L)" by (simp only: of_nat_less_iff)
  moreover have "int (nat (- ?m)) = - ?m" by (rule nat_0_le) (use neg in linarith)
  moreover have "int (2 ^ ?L) = 2 ^ ?L" by simp
  ultimately have small: "- ?m < 2 ^ ?L" by (simp only:)
  from False have "(2::int) ^ 16 \<le> - ?m" by (simp add: push_bit_eq_mult)
  with small have "(2::int) ^ 16 < 2 ^ ?L" by linarith
  then have "16 < ?L" by (rule power_less_imp_less_exp [rotated]) simp
  then have L: "16 \<le> ?L" by simp
  from neg small have "bit ?m ?L" by (rule bit_top_of_negative)
  then have "take_bit ?L (division_step 0x3d65 16 ?L ?m) = division_step 0x3d65 16 ?L ?m"
    by (simp add: division_step_bit del: push_bit_numeral)
  with L have "take_bit 16 (division_loop 0x3d65 16 ?L (division_step 0x3d65 16 ?L ?m))
      = division_loop 0x3d65 16 ?L (division_step 0x3d65 16 ?L ?m)"
    by (rule division_loop_bounded)
  with L show ?thesis
    by (simp only: raw_crc_def Let_def len division_loop_Suc)
qed

lemma complement_bounded: "take_bit 16 (raw_crc v XOR 0xFFFF) = raw_crc v XOR 0xFFFF"
proof -
  have "take_bit 16 (0xFFFF :: int) = 0xFFFF" by simp
  then show ?thesis by (simp only: take_bit_xor raw_crc_bounded)
qed

lemma complement_range: "0 \<le> raw_crc v XOR 0xFFFF \<and> raw_crc v XOR 0xFFFF \<le> 65535"
proof -
  from complement_bounded [of v]
  have "0 \<le> raw_crc v XOR 0xFFFF \<and> raw_crc v XOR 0xFFFF < 2 ^ 16"
    by (simp only: take_bit_int_eq_self_iff)
  then show ?thesis by simp
qed


lemma pack_le_H_complement:
  "pack_le_H (raw_crc v XOR 0xFFFF)
     = Inr [word_of_int (raw_crc v XOR 0xFFFF), word_of_int (drop_bit 8 (raw_crc v XOR 0xFFFF))]"
  using complement_range [of v] by (simp add: pack_le_H_def)

lemma crc16_wmbus_decoded:
  assumes "py_int16 message = Inr v"
  shows "crc16_wmbus message
     = Inr (hexlify [word_of_int (raw_crc v XOR 0xFFFF), word_of_int (drop_bit 8 (raw_crc v XOR 0xFFFF))])"
  by (simp only: crc16_wmbus_def assms sum.case Let_def pack_le_H_complement)

lemma crc16_wmbus_undecoded: "py_int16 message = Inl e \<Longrightarrow> crc16_wmbus message = Inl e"
  by (simp add: crc16_wmbus_def)

section \<open>The hex text of the result determines the remainder\<close>

lemma length_hexlify: "length (hexlify bs) = 2 * length bs"
  by (induction bs) (simp_all add: hexlify_def)


lemma high_nibble_bound: "unat (drop_bit 4 (b :: 8 word)) < 16"
proof -
  have "unat b < 2 ^ 8" using unsigned_less [of b] by simp
  moreover have "unat (drop_bit 4 b) = unat b div 2 ^ 4"
    by (simp only: unat_drop_bit_eq) (simp only: drop_bit_eq_div)
  ultimately show ?thesis by simp
qed

lemma low_nibble_bound: "unat ((b :: 8 word) AND 0xF) < 16"
proof -
  have "b AND 0xF = take_bit 4 b"
    by (simp add: take_bit_eq_mask mask_eq_exp_minus_1)
  moreover have "take_bit 4 (unat b) < 2 ^ 4"
    by (rule take_bit_nat_less_exp)
  ultimately show ?thesis
    by (simp add: unsigned_take_bit_eq)
qed

lemma hex_char_digit: "k < 16 \<Longrightarrow> hex_char k \<in> set ''0123456789abcdef''"
proof -
  assume "k < 16"
  then have "k < length ''0123456789abcdef''" by simp
  then show ?thesis unfolding hex_char_def by (rule nth_mem)
qed

lemma set_pair_append: "x \<in> S \<Longrightarrow> y \<in> S \<Longrightarrow> set r \<subseteq> S \<Longrightarrow> set ([x, y] @ r) \<subseteq> S"
  by auto

lemma hexlify_chars: "set (hexlify bs) \<subseteq> set ''0123456789abcdef''"
proof (induction bs)
  case Nil
  show ?case by (simp add: hexlify_def)
next
  case (Cons b bs)
  have step: "hexlify (b # bs)
      = [hex_char (unat (drop_bit 4 b)), hex_char (unat (b AND 0xF))] @ hexlify bs"
    by (simp add: hexlify_def)
  have "hex_char (unat (drop_bit 4 b)) \<in> set ''0123456789abcdef''"
    using high_nibble_bound by (rule hex_char_digit)
  moreover have "hex_char (unat (b AND 0xF)) \<in> set ''0123456789abcdef''"
    using low_nibble_bound by (rule hex_char_digit)
  ultimately show ?case
    unfolding step using Cons.IH by (rule set_pair_append)
qed





section \<open>Decoding the hex text\<close>

lemma digit_not_space: "digit_value c < 16 \<Longrightarrow> \<not> py_isspace c"
  by (auto simp: digit_value_def py_isspace_def Let_def split: if_splits)

lemma digit_not_mark:
  "digit_value c < 16 \<Longrightarrow> c \<noteq> CHR ''+'' \<and> c \<noteq> CHR ''-'' \<and> c \<noteq> CHR ''_'' \<and> c \<noteq> CHR ''x'' \<and> c \<noteq> CHR ''X''"
  by (auto simp: digit_value_def Let_def)

lemma scan_digits_all:
  "\<forall>c\<in>set s. digit_value c < 16 \<Longrightarrow> s = [] \<longrightarrow> prev \<noteq> CHR ''_'' \<Longrightarrow>
     scan_digits prev acc s = Inr (foldl (\<lambda>a c. a * 16 + int (digit_value c)) acc s, [])"
proof (induction s arbitrary: prev acc)
  case Nil
  then show ?case by simp
next
  case (Cons c cs)
  then have c: "digit_value c < 16" and "c \<noteq> CHR ''_''"
    using digit_not_mark [of c] by simp_all
  moreover from Cons.prems c have "scan_digits c (acc * 16 + int (digit_value c)) cs
      = Inr (foldl (\<lambda>a c. a * 16 + int (digit_value c)) (acc * 16 + int (digit_value c)) cs, [])"
    using digit_not_mark [of c] by (intro Cons.IH) simp_all
  ultimately show ?case by simp
qed

lemma py_int16_digits:
  assumes "s \<noteq> []" and "\<forall>c\<in>set s. digit_value c < 16"
  shows "py_int16 s = Inr (foldl (\<lambda>a c. a * 16 + int (digit_value c)) 0 s)"
proof -
  from assms obtain c cs where s: "s = c # cs" by (cases s) auto
  with assms have c: "digit_value c < 16" by simp
  then have marks: "c \<noteq> CHR ''+''" "c \<noteq> CHR ''-''" "c \<noteq> CHR ''_''"
    using digit_not_mark [of c] by simp_all
  from c have "\<not> py_isspace c" by (rule digit_not_space)
  then have s1: "dropWhile py_isspace s = s" by (simp add: s)
  from marks have s2: "strip_sign s = (1, s)" by (simp add: strip_sign_def s)
  have s3: "strip_prefix16 s = s"
  proof (cases cs)
    case Nil
    then show ?thesis by (simp add: strip_prefix16_def s)
  next
    case (Cons d ds)
    with assms s have "digit_value d < 16" by simp
    then have "d \<noteq> CHR ''x''" "d \<noteq> CHR ''X''" using digit_not_mark [of d] by simp_all
    with Cons show ?thesis by (simp add: strip_prefix16_def s)
  qed
  from assms have scan: "scan_digits (CHR 0x00) 0 s
      = Inr (foldl (\<lambda>a c. a * 16 + int (digit_value c)) 0 s, [])"
    by (intro scan_digits_all) simp_all
  from assms(1) marks show ?thesis
    by (simp add: py_int16_def s1 s2 s3 scan) (simp add: s)
qed

lemma foldl_leading_zeros:
  "foldl (\<lambda>a c. a * 16 + int (digit_value c)) 0 (replicate k (CHR ''0'') @ s)
     = foldl (\<lambda>a c. a * 16 + int (digit_value c)) 0 s"
  by (induction k) (simp_all add: digit_value_def)

lemma py_int16_leading_zeros:
  assumes "s \<noteq> []" and "\<forall>c\<in>set s. digit_value c < 16"
  shows "py_int16 (replicate k (CHR ''0'') @ s) = py_int16 s"
proof -
  let ?z = "replicate k (CHR ''0'') @ s"
  have "digit_value (CHR ''0'') < 16" by (simp add: digit_value_def)
  with assms have all: "\<forall>c\<in>set ?z. digit_value c < 16" by auto
  from assms have ne: "?z \<noteq> []" by simp
  have "py_int16 ?z = Inr (foldl (\<lambda>a c. a * 16 + int (digit_value c)) 0 ?z)"
    using ne all by (rule py_int16_digits)
  also have "\<dots> = Inr (foldl (\<lambda>a c. a * 16 + int (digit_value c)) 0 s)"
    by (simp only: foldl_leading_zeros)
  also have "\<dots> = py_int16 s"
    using assms by (rule py_int16_digits [symmetric])
  finally show ?thesis .
qed

lemma scan_digits_consumed:
  "scan_digits prev acc s = Inr (v, rest) \<Longrightarrow>
     \<exists>body. s = body @ rest \<and> (\<forall>c\<in>set body. digit_value c < 16 \<or> c = CHR ''_'')"
proof (induction s arbitrary: prev acc)
  case Nil
  then show ?case by (simp split: if_splits)
next
  case (Cons c cs)
  consider (us) "c = CHR ''_''" | (dig) "c \<noteq> CHR ''_''" "digit_value c < 16"
    | (stop) "c \<noteq> CHR ''_''" "\<not> digit_value c < 16" by blast
  then show ?case
  proof cases
    case us
    with Cons.prems have "scan_digits c acc cs = Inr (v, rest)" by (simp split: if_splits)
    then obtain body where "cs = body @ rest" "\<forall>c\<in>set body. digit_value c < 16 \<or> c = CHR ''_''"
      using Cons.IH by blast
    with us have "c # cs = (c # body) @ rest \<and> (\<forall>c\<in>set (c # body). digit_value c < 16 \<or> c = CHR ''_'')"
      by simp
    then show ?thesis by blast
  next
    case dig
    with Cons.prems have "scan_digits c (acc * 16 + int (digit_value c)) cs = Inr (v, rest)" by simp
    then obtain body where "cs = body @ rest" "\<forall>c\<in>set body. digit_value c < 16 \<or> c = CHR ''_''"
      using Cons.IH by blast
    with dig have "c # cs = (c # body) @ rest \<and> (\<forall>c\<in>set (c # body). digit_value c < 16 \<or> c = CHR ''_'')"
      by simp
    then show ?thesis by blast
  next
    case stop
    with Cons.prems have "rest = c # cs" by (simp split: if_splits)
    then have "c # cs = [] @ rest \<and> (\<forall>c\<in>set []. digit_value c < 16 \<or> c = CHR ''_'')" by simp
    then show ?thesis by blast
  qed
qed

lemma strip_sign_chars: "strip_sign s = (sg, r) \<Longrightarrow> set s \<subseteq> set r \<union> {CHR ''+'', CHR ''-''}"
  by (auto simp: strip_sign_def split: list.splits if_splits)

lemma strip_prefix16_chars:
  "set s \<subseteq> set (strip_prefix16 s) \<union> {CHR ''0'', CHR ''x'', CHR ''X'', CHR ''_''}"
  by (auto simp: strip_prefix16_def split: list.splits if_splits)

lemma py_int16_tolerated:
  assumes "py_int16 s = Inr v"
  shows "\<forall>c\<in>set s. tolerated_char c"
proof
  fix c
  assume c: "c \<in> set s"
  let ?s1 = "dropWhile py_isspace s"
  obtain sg s2 where sign: "strip_sign ?s1 = (sg, s2)" by (cases "strip_sign ?s1")
  let ?s3 = "strip_prefix16 s2"
  from assms sign obtain v' rest where scan: "scan_digits (CHR 0x00) 0 ?s3 = Inr (v', rest)"
    and rest: "dropWhile py_isspace rest = []"
    by (auto simp: py_int16_def Let_def split: if_splits sum.splits prod.splits)
  from scan obtain body where body: "?s3 = body @ rest"
    "\<forall>c\<in>set body. digit_value c < 16 \<or> c = CHR ''_''"
    using scan_digits_consumed by blast
  from rest have spaces: "\<forall>c\<in>set rest. py_isspace c"
    by (simp add: dropWhile_eq_Nil_conv)
  have zero: "digit_value (CHR ''0'') < 16" by (simp add: digit_value_def)
  have "set s = set (takeWhile py_isspace s) \<union> set ?s1"
    by (metis set_append takeWhile_dropWhile_id)
  with c consider "c \<in> set (takeWhile py_isspace s)" | "c \<in> set ?s1" by blast
  then show "tolerated_char c"
  proof cases
    case 1
    then have "py_isspace c" by (rule set_takeWhileD [THEN conjunct2])
    then show ?thesis by (simp add: tolerated_char_def)
  next
    case 2
    with strip_sign_chars [OF sign] strip_prefix16_chars [of s2]
    have "c \<in> set ?s3 \<union> {CHR ''+'', CHR ''-'', CHR ''0'', CHR ''x'', CHR ''X'', CHR ''_''}"
      by blast
    with body spaces zero show ?thesis
      by (auto simp: tolerated_char_def)
  qed
qed

lemma scan_digits_error: "scan_digits prev acc s = Inl e \<Longrightarrow> e = ValueError"
  by (induction s arbitrary: prev acc) (auto split: if_splits)

lemma py_int16_error: "py_int16 s = Inl e \<Longrightarrow> e = ValueError"
  by (auto simp: py_int16_def Let_def split: if_splits sum.splits prod.splits
      dest: scan_digits_error)

lemma py_int16_rejects:
  assumes "\<exists>c\<in>set s. \<not> tolerated_char c"
  shows "py_int16 s = Inl ValueError"
proof (cases "py_int16 s")
  case (Inl e)
  then show ?thesis using py_int16_error by blast
next
  case (Inr v)
  then have "\<forall>c\<in>set s. tolerated_char c" by (rule py_int16_tolerated)
  with assms show ?thesis by blast
qed

lemma py_int16_empty: "py_int16 [] = Inl ValueError"
  by (simp add: py_int16_def strip_sign_def strip_prefix16_def)

lemma raw_crc_zero: "raw_crc 0 = 0"
proof -
  have "raw_crc 0 = reduce 0 (push_bit 16 0)"
    by (rule raw_crc_reduce) simp_all
  then show ?thesis by (simp add: reduce_stop)
qed

lemma range_down_loop: "0 < L \<Longrightarrow> range_down (L - 1) (16 - 1) = rev [16 ..< L]"
  by (simp add: range_down_def)

lemma m_bitlen_positive: "0 < length (drop 2 (bin m))"
proof (cases "0 \<le> m")
  case True
  then show ?thesis by (simp only: m_bitlen_nonneg bin_digits_nonempty)
next
  case False
  then have "m < 0" by simp
  then show ?thesis by (simp only: m_bitlen_neg zero_less_Suc)
qed

lemma loop_positions:
  assumes "0 \<le> m"
  shows "range_down (length (drop 2 (bin m)) - 1) (16 - 1) = spec_positions m"
proof (cases "m = 0")
  case True
  have "length (drop 2 (bin m)) = length (bin_digits (nat m))"
    using assms by (rule m_bitlen_nonneg)
  with True have "length (drop 2 (bin m)) = 1"
    by (simp only: length_bin_digits) simp
  moreover have "range_down (1 - 1) (16 - 1) = []" by (simp add: range_down_def)
  moreover from True have "spec_positions m = []" by (simp add: spec_positions_def)
  ultimately show ?thesis by (simp only:)
next
  case False
  with assms have "nat m \<noteq> 0" by simp
  then have "length (drop 2 (bin m)) = floorlog 2 (nat m)"
    using assms by (simp only: m_bitlen_nonneg length_bin_digits if_False)
  moreover have "nat (bitlen m) = floorlog 2 (nat m)"
    by (simp add: bitlen_def)
  ultimately have "spec_positions m = rev [16 ..< length (drop 2 (bin m))]"
    by (simp only: spec_positions_def)
  then show ?thesis
    by (simp only: range_down_loop [OF m_bitlen_positive])
qed

lemma raw_crc_spec_division:
  assumes "0 \<le> v"
  shows "raw_crc v = spec_division v"
proof -
  let ?m = "push_bit 16 v"
  let ?len = "length (drop 2 (bin ?m))"
  from assms have m: "0 \<le> ?m" by simp
  have own: "take_bit ?len ?m = ?m"
    using m by (rule take_bit_m_bitlen)
  have "raw_crc v = reduce ?len ?m"
    using assms own by (rule raw_crc_reduce)
  also have "\<dots> = fold spec_step (range_down (?len - 1) (16 - 1)) ?m"
    by (simp only: reduce_def range_down_loop [OF m_bitlen_positive])
  also have "\<dots> = fold spec_step (spec_positions ?m) ?m"
    by (simp only: loop_positions [OF m])
  finally have "raw_crc v = fold spec_step (spec_positions ?m) ?m" .
  then have "take_bit 16 (raw_crc v) = take_bit 16 (fold spec_step (spec_positions ?m) ?m)"
    by (simp only:)
  then show ?thesis
    by (simp only: raw_crc_bounded spec_division_def Let_def)
qed

lemma reduce_unroll: "reduce L r = (if 16 < L then reduce (L - 1) (spec_step (L - 1) r) else r)"
proof (cases "16 < L")
  case True
  then obtain n where "L = Suc n" "16 \<le> n" by (cases L) auto
  then show ?thesis by (simp add: reduce_Suc)
next
  case False
  then show ?thesis by (simp add: reduce_stop)
qed

section \<open>The decoder accepts exactly the literals of the grammar\<close>

lemma digits16_head: "digits16 ds \<Longrightarrow> \<exists>c cs. ds = c # cs \<and> digit_value c < 16"
  by (induction rule: digits16.induct) auto

lemma space_not_digit: "py_isspace c \<Longrightarrow> \<not> digit_value c < 16 \<and> c \<noteq> CHR ''_''"
  using digit_not_space [of c] by (auto simp: py_isspace_def)

lemma scan_digits_stop:
  assumes "digit_value c < 16" and "\<forall>w\<in>set ws. py_isspace w"
  shows "scan_digits c acc ws = Inr (acc, ws)"
proof (cases ws)
  case Nil
  with assms(1) show ?thesis using digit_not_mark [of c] by simp
next
  case (Cons w ws')
  with assms(2) have "py_isspace w" by simp
  then have "\<not> digit_value w < 16" "w \<noteq> CHR ''_''" using space_not_digit by blast+
  with Cons assms(1) show ?thesis using digit_not_mark [of c] by simp
qed

lemma scan_digits_accepts:
  assumes "digits16 ds" and "\<forall>w\<in>set ws. py_isspace w"
  shows "\<exists>v. scan_digits prev acc (ds @ ws) = Inr (v, ws)"
  using assms(1)
proof (induction arbitrary: prev acc rule: digits16.induct)
  case (single c)
  then have "c \<noteq> CHR ''_''" using digit_not_mark [of c] by simp
  with single show ?case by (simp add: scan_digits_stop [OF _ assms(2)])
next
  case (digit c ds)
  then have "c \<noteq> CHR ''_''" using digit_not_mark [of c] by simp
  with digit show ?case by simp
next
  case (underscore c ds)
  then have "c \<noteq> CHR ''_''" using digit_not_mark [of c] by simp
  with underscore show ?case by simp
qed

lemma scan_digits_shape:
  "scan_digits prev acc s = Inr (v, rest) \<Longrightarrow>
     (prev \<noteq> CHR ''_'' \<and> s = rest) \<or>
     (\<exists>body. s = body @ rest \<and> digits16 body) \<or>
     (prev \<noteq> CHR ''_'' \<and> (\<exists>body. s = CHR ''_'' # body @ rest \<and> digits16 body))"
proof (induction s arbitrary: prev acc)
  case Nil
  then show ?case by (simp split: if_splits)
next
  case (Cons c cs)
  consider (us) "c = CHR ''_''" | (dig) "c \<noteq> CHR ''_''" "digit_value c < 16"
    | (stop) "c \<noteq> CHR ''_''" "\<not> digit_value c < 16" by blast
  then show ?case
  proof cases
    case us
    with Cons.prems have p: "prev \<noteq> CHR ''_''" and "scan_digits (CHR ''_'') acc cs = Inr (v, rest)"
      by (simp_all split: if_splits)
    from Cons.IH [OF this(2)] obtain body where "cs = body @ rest" "digits16 body"
      by blast
    with us p show ?thesis by simp
  next
    case dig
    with Cons.prems have "scan_digits c (acc * 16 + int (digit_value c)) cs = Inr (v, rest)"
      by simp
    from Cons.IH [OF this] dig(1)
    consider "cs = rest" | body where "cs = body @ rest" "digits16 body"
      | body where "cs = CHR ''_'' # body @ rest" "digits16 body"
      by blast
    then show ?thesis
    proof cases
      case 1
      have "digits16 [c]" using dig(2) by (rule digits16.single)
      with 1 have "c # cs = [c] @ rest \<and> digits16 [c]" by simp
      then show ?thesis by blast
    next
      case 2
      have "digits16 (c # body)" using dig(2) 2(2) by (rule digits16.digit)
      with 2 have "c # cs = (c # body) @ rest \<and> digits16 (c # body)" by simp
      then show ?thesis by blast
    next
      case 3
      have "digits16 (c # CHR ''_'' # body)" using dig(2) 3(2) by (rule digits16.underscore)
      with 3 have "c # cs = (c # CHR ''_'' # body) @ rest \<and> digits16 (c # CHR ''_'' # body)" by simp
      then show ?thesis by blast
    qed
  next
    case stop
    with Cons.prems show ?thesis by (simp split: if_splits)
  qed
qed

lemma digits16_chars: "digits16 ds \<Longrightarrow> \<forall>c\<in>set ds. digit_value c < 16 \<or> c = CHR ''_''"
  by (induction rule: digits16.induct) auto

lemma space_not_mark:
  "py_isspace c \<Longrightarrow> c \<noteq> CHR ''+'' \<and> c \<noteq> CHR ''-'' \<and> c \<noteq> CHR ''x'' \<and> c \<noteq> CHR ''X'' \<and> c \<noteq> CHR ''0''"
  by (auto simp: py_isspace_def)

lemma strip_prefix16_digits:
  assumes "digits16 ds" and "\<forall>w\<in>set ws. py_isspace w"
  shows "strip_prefix16 (ds @ ws) = ds @ ws"
proof -
  from assms(1) obtain c cs where ds: "ds = c # cs" using digits16_head by blast
  show ?thesis
  proof (cases "cs @ ws")
    case Nil
    with ds show ?thesis by (simp add: strip_prefix16_def)
  next
    case (Cons r rs)
    then have "r \<in> set ds \<or> r \<in> set ws" unfolding ds
      by (metis Un_iff list.set_intros(1,2) set_append)
    then have "r \<noteq> CHR ''x'' \<and> r \<noteq> CHR ''X''"
      using digits16_chars [OF assms(1)] assms(2) digit_not_mark [of r] space_not_mark [of r]
      by auto
    with Cons ds show ?thesis by (simp add: strip_prefix16_def)
  qed
qed

lemma strip_prefix16_prefixed:
  assumes "digits16 ds" and "\<forall>w\<in>set ws. py_isspace w"
    and "pre \<in> {[], ''0x'', ''0X'', ''0x_'', ''0X_''}"
  shows "strip_prefix16 (pre @ ds @ ws) = ds @ ws"
proof -
  from assms(1) obtain c cs where ds: "ds = c # cs" and "digit_value c < 16"
    using digits16_head by blast
  then have c: "c \<noteq> CHR ''_''" using digit_not_mark [of c] by simp
  from assms(3) consider "pre = []" | "pre = ''0x''" | "pre = ''0X''" | "pre = ''0x_''" | "pre = ''0X_''"
    by auto
  then show ?thesis
  proof cases
    case 1
    then show ?thesis using strip_prefix16_digits [OF assms(1,2)] by simp
  qed (use c in \<open>simp_all add: strip_prefix16_def ds\<close>)
qed

lemma strip_sign_signed:
  assumes "digits16 ds" and "pre \<in> {[], ''0x'', ''0X'', ''0x_'', ''0X_''}"
    and "sg \<in> {[], ''+'', ''-''}"
  shows "\<exists>k. strip_sign (sg @ pre @ ds @ ws) = (k, pre @ ds @ ws)"
proof -
  from assms(1) obtain c cs where ds: "ds = c # cs" and "digit_value c < 16"
    using digits16_head by blast
  then have c: "c \<noteq> CHR ''+''" "c \<noteq> CHR ''-''" using digit_not_mark [of c] by simp_all
  from assms(3) consider "sg = []" | "sg = ''+''" | "sg = ''-''" by auto
  then show ?thesis
  proof cases
    case 1
    from assms(2) consider "pre = []" | "pre = ''0x''" | "pre = ''0X''" | "pre = ''0x_''" | "pre = ''0X_''"
      by auto
    then show ?thesis
      by cases (use 1 c in \<open>simp_all add: strip_sign_def ds\<close>)
  qed (simp_all add: strip_sign_def)
qed

lemma literal_core_not_space:
  assumes "digits16 ds" and "pre \<in> {[], ''0x'', ''0X'', ''0x_'', ''0X_''}"
    and "sg \<in> {[], ''+'', ''-''}"
  shows "\<exists>h t. sg @ pre @ ds @ ws = h # t \<and> \<not> py_isspace h"
proof -
  from assms(1) obtain c cs where ds: "ds = c # cs" and "digit_value c < 16"
    using digits16_head by blast
  then have c: "\<not> py_isspace c" by (simp add: digit_not_space)
  have marks: "\<not> py_isspace (CHR ''+'')" "\<not> py_isspace (CHR ''-'')" "\<not> py_isspace (CHR ''0'')"
    by (simp_all add: py_isspace_def)
  from assms(3) consider "sg = []" | "sg = ''+''" | "sg = ''-''" by auto
  then show ?thesis
  proof cases
    case 1
    from assms(2) consider "pre = []" | "pre = ''0x''" | "pre = ''0X''" | "pre = ''0x_''" | "pre = ''0X_''"
      by auto
    then show ?thesis
      by cases (use 1 c marks in \<open>simp_all add: ds\<close>)
  qed (use marks in simp_all)
qed

lemma literal16_decodes:
  assumes "literal16 s"
  shows "\<exists>v. py_int16 s = Inr v"
proof -
  from assms obtain ws1 sg pre ds ws2 where s: "s = ws1 @ sg @ pre @ ds @ ws2"
    and ws1: "\<forall>c\<in>set ws1. py_isspace c"
    and sg: "sg \<in> {[], ''+'', ''-''}"
    and pre: "pre \<in> {[], ''0x'', ''0X'', ''0x_'', ''0X_''}"
    and ds: "digits16 ds"
    and ws2: "\<forall>c\<in>set ws2. py_isspace c"
    unfolding literal16_def by blast
  obtain h t where core: "sg @ pre @ ds @ ws2 = h # t" and h: "\<not> py_isspace h"
    using literal_core_not_space [OF ds pre sg] by blast
  from ws1 have "dropWhile py_isspace s = dropWhile py_isspace (sg @ pre @ ds @ ws2)"
    unfolding s by (simp add: dropWhile_append2)
  with core h have s1: "dropWhile py_isspace s = sg @ pre @ ds @ ws2" by simp
  obtain k where s2: "strip_sign (sg @ pre @ ds @ ws2) = (k, pre @ ds @ ws2)"
    using strip_sign_signed [OF ds pre sg] by blast
  have s3: "strip_prefix16 (pre @ ds @ ws2) = ds @ ws2"
    using ds ws2 pre by (rule strip_prefix16_prefixed)
  obtain c cs where dsc: "ds = c # cs" and "digit_value c < 16"
    using digits16_head [OF ds] by blast
  then have first: "c \<noteq> CHR ''_''" using digit_not_mark [of c] by simp
  obtain v where scan: "scan_digits (CHR 0x00) 0 (ds @ ws2) = Inr (v, ws2)"
    using scan_digits_accepts [OF ds ws2] by blast
  from ws2 have rest: "dropWhile py_isspace ws2 = []" by simp
  from dsc first have start: "hd (ds @ ws2) \<noteq> CHR ''_''" by simp
  from dsc have read: "length ws2 \<noteq> length (ds @ ws2)" by simp
  have "py_int16 s = Inr (k * v)"
    unfolding py_int16_def Let_def s1 s2 prod.case s3 scan sum.case
    using start read rest by simp
  then show ?thesis by blast
qed

lemma strip_sign_split:
  "strip_sign s = (k, r) \<Longrightarrow> \<exists>sg. s = sg @ r \<and> sg \<in> {[], ''+'', ''-''}"
  by (auto simp: strip_sign_def split: list.splits if_splits)

lemma strip_prefix16_split:
  "\<exists>pre. s = pre @ strip_prefix16 s \<and> pre \<in> {[], ''0x'', ''0X'', ''0x_'', ''0X_''}"
  by (auto simp: strip_prefix16_def split: list.splits)

lemma decoded_literal16:
  assumes "py_int16 s = Inr v"
  shows "literal16 s"
proof -
  let ?s1 = "dropWhile py_isspace s"
  obtain k s2 where sign: "strip_sign ?s1 = (k, s2)" by (cases "strip_sign ?s1")
  let ?s3 = "strip_prefix16 s2"
  from assms sign obtain v' rest where scan: "scan_digits (CHR 0x00) 0 ?s3 = Inr (v', rest)"
    and first: "?s3 = [] \<or> hd ?s3 \<noteq> CHR ''_''"
    and read: "length rest \<noteq> length ?s3"
    and rest: "dropWhile py_isspace rest = []"
    by (auto simp: py_int16_def Let_def split: if_splits sum.splits prod.splits)
  from scan_digits_shape [OF scan] first read
  obtain body where body: "?s3 = body @ rest" "digits16 body"
    by auto
  from rest have ws2: "\<forall>c\<in>set rest. py_isspace c"
    by (simp add: dropWhile_eq_Nil_conv)
  obtain sg where sg: "?s1 = sg @ s2" "sg \<in> {[], ''+'', ''-''}"
    using strip_sign_split [OF sign] by blast
  obtain pre where pre: "s2 = pre @ ?s3" "pre \<in> {[], ''0x'', ''0X'', ''0x_'', ''0X_''}"
    using strip_prefix16_split [of s2] by blast
  have "s = takeWhile py_isspace s @ ?s1" by simp
  also have "\<dots> = takeWhile py_isspace s @ sg @ pre @ body @ rest"
    using sg(1) pre(1) body(1) by simp
  finally have "s = takeWhile py_isspace s @ sg @ pre @ body @ rest" .
  moreover have "\<forall>c\<in>set (takeWhile py_isspace s). py_isspace c"
    by (auto dest: set_takeWhileD)
  ultimately show ?thesis
    unfolding literal16_def using sg(2) pre(2) body(2) ws2 by blast
qed

lemma py_int16_literal16: "(\<exists>v. py_int16 s = Inr v) \<longleftrightarrow> literal16 s"
  using literal16_decodes decoded_literal16 by blast

section \<open>The vectors asserted in the source\<close>

lemmas decode_simps = py_int16_def strip_sign_def strip_prefix16_def py_isspace_def digit_value_def

lemmas hexlify_simps = hexlify_def hex_char_def

lemma vector1_decode:
  "py_int16 ''1444AE0C7856341201078C2027780B13436587'' = Inr 0x1444AE0C7856341201078C2027780B13436587"
  by (simp add: decode_simps)

lemma vector2_decode:
  "py_int16 ''79138C7976CE000000000000000400000000000000''
     = Inr 0x79138C7976CE000000000000000400000000000000"
  by (simp add: decode_simps)

lemma vector3_decode:
  "py_int16 ''79138C4491CE000000000000000300000000000000''
     = Inr 0x79138C4491CE000000000000000300000000000000"
  by (simp add: decode_simps)

lemma vector1_raw: "raw_crc 0x1444AE0C7856341201078C2027780B13436587 = 0x853A"
proof -
  have "raw_crc 0x1444AE0C7856341201078C2027780B13436587
      = reduce 168 (push_bit 16 0x1444AE0C7856341201078C2027780B13436587)"
    by (rule raw_crc_reduce) (simp_all add: take_bit_int_eq_self)
  also have "\<dots> = 0x853A"
    by (simp add: reduce_unroll spec_step_def)
  finally show ?thesis .
qed

lemma vector2_raw: "raw_crc 0x79138C7976CE000000000000000400000000000000 = 0xAD44"
proof -
  have "raw_crc 0x79138C7976CE000000000000000400000000000000
      = reduce 184 (push_bit 16 0x79138C7976CE000000000000000400000000000000)"
    by (rule raw_crc_reduce) (simp_all add: take_bit_int_eq_self)
  also have "\<dots> = 0xAD44"
    by (simp add: reduce_unroll spec_step_def)
  finally show ?thesis .
qed

lemma vector3_raw: "raw_crc 0x79138C4491CE000000000000000300000000000000 = 0x8FEE"
proof -
  have "raw_crc 0x79138C4491CE000000000000000300000000000000
      = reduce 184 (push_bit 16 0x79138C4491CE000000000000000300000000000000)"
    by (rule raw_crc_reduce) (simp_all add: take_bit_int_eq_self)
  also have "\<dots> = 0x8FEE"
    by (simp add: reduce_unroll spec_step_def)
  finally show ?thesis .
qed

lemma vector1_result: "crc16_wmbus ''1444AE0C7856341201078C2027780B13436587'' = Inr ''c57a''"
  by (simp add: crc16_wmbus_decoded [OF vector1_decode] vector1_raw hexlify_simps)

lemma vector2_result: "crc16_wmbus ''79138C7976CE000000000000000400000000000000'' = Inr ''bb52''"
  by (simp add: crc16_wmbus_decoded [OF vector2_decode] vector2_raw hexlify_simps)

lemma vector3_result: "crc16_wmbus ''79138C4491CE000000000000000300000000000000'' = Inr ''1170''"
  by (simp add: crc16_wmbus_decoded [OF vector3_decode] vector3_raw hexlify_simps)

lemma zero_text_decode: "py_int16 ''00'' = Inr 0"
  by (simp add: decode_simps)

lemma zero_value_result: "py_int16 message = Inr 0 \<Longrightarrow> crc16_wmbus message = Inr ''ffff''"
  by (simp add: crc16_wmbus_decoded raw_crc_zero hexlify_simps)

lemma small_raw: "raw_crc 0x12 = 0xEB35" "raw_crc 0x123 = 0xADEC"
proof -
  have "raw_crc 0x12 = reduce 32 (push_bit 16 0x12)"
    by (rule raw_crc_reduce) (simp_all add: take_bit_int_eq_self)
  then show "raw_crc 0x12 = 0xEB35"
    by (simp add: reduce_unroll spec_step_def)
  have "raw_crc 0x123 = reduce 32 (push_bit 16 0x123)"
    by (rule raw_crc_reduce) (simp_all add: take_bit_int_eq_self)
  then show "raw_crc 0x123 = 0xADEC"
    by (simp add: reduce_unroll spec_step_def)
qed

lemma digits_decode:
  assumes "message \<noteq> []" and "\<forall>c\<in>set message. digit_value c < 16"
  shows "\<exists>v. py_int16 message = Inr v"
  using py_int16_digits [OF assms] by blast

lemma decoded_returns:
  assumes "py_int16 message = Inr v"
  shows "\<exists>b0 b1. crc16_wmbus message = Inr (hexlify [b0, b1])"
  using crc16_wmbus_decoded [OF assms] by blast

section \<open>The claims\<close>

text \<open>
  C1: For each of the three vectors asserted in the source, the routine applied to the
  message text returns the documented two bytes, low byte first, as hex text:
  \<^verbatim>\<open>c57a\<close>, \<^verbatim>\<open>bb52\<close> and \<^verbatim>\<open>1170\<close>.
\<close>

theorem crc16_wmbus_known_vectors:
  "crc16_wmbus ''1444AE0C7856341201078C2027780B13436587'' = Inr ''c57a'' \<and>
   crc16_wmbus ''79138C7976CE000000000000000400000000000000'' = Inr ''bb52'' \<and>
   crc16_wmbus ''79138C4491CE000000000000000300000000000000'' = Inr ''1170''"
  by (intro conjI vector1_result vector2_result vector3_result)

text \<open>
  C2: The loop of the routine is the bit-serial long division of the specification. For a
  message value \<open>v\<close> that is not negative, the remainder the loop leaves from \<open>v\<close>
  shifted left by 16 is the low 16 bits of what the specification's division leaves; the
  positions the loop visits are those from the most significant bit of the shifted message
  down to 16; and at a position \<open>n\<close>, on a remainder below \<open>2 ^ (n + 1)\<close>, the step
  \<^verbatim>\<open>(crc ^ (g << (n-16))) % 2**n\<close> is the XOR with the generator whose \<open>x^16\<close> bit is
  aligned with bit \<open>n\<close>, taken when bit \<open>n\<close> is 1, and no change otherwise.
\<close>

theorem division_loop_is_long_division:
  "(0 \<le> v \<longrightarrow> raw_crc v = spec_division v) \<and>
   (0 \<le> m \<longrightarrow> range_down (length (drop 2 (bin m)) - 1) (16 - 1) = spec_positions m) \<and>
   (16 \<le> n \<and> 0 \<le> crc \<and> crc < 2 ^ Suc n \<longrightarrow> division_step 0x3d65 16 n crc = spec_step n crc)"
proof (intro conjI impI)
  assume "0 \<le> v"
  then show "raw_crc v = spec_division v" by (rule raw_crc_spec_division)
next
  assume "0 \<le> m"
  then show "range_down (length (drop 2 (bin m)) - 1) (16 - 1) = spec_positions m"
    by (rule loop_positions)
next
  assume a: "16 \<le> n \<and> 0 \<le> crc \<and> crc < 2 ^ Suc n"
  then have "take_bit (Suc n) crc = crc" by (simp only: take_bit_int_eq_self)
  with a show "division_step 0x3d65 16 n crc = spec_step n crc"
    by (simp only: division_step_spec)
qed

theorem division_loop_is_long_division_witness:
  "(0::int) \<le> 0x12 \<and> raw_crc 0x12 = spec_division 0x12 \<and>
   (0::int) \<le> 0x120000 \<and>
   range_down (length (drop 2 (bin 0x120000)) - 1) (16 - 1) = spec_positions 0x120000 \<and>
   (16::nat) \<le> 20 \<and> (0x120000::int) < 2 ^ Suc 20 \<and>
   division_step 0x3d65 16 20 0x120000 = spec_step 20 0x120000"
  using division_loop_is_long_division [of "0x12" "0x120000" 20 "0x120000"] by simp

text \<open>
  C3 (as stated): the computation is total on every input message, the zero-length one
  included. The zero-length text is rejected by the decoder.
\<close>

theorem empty_message_raises: "crc16_wmbus '''' = Inl ValueError"
  by (simp add: crc16_wmbus_def py_int16_empty)

text \<open>
  C3 (amended): On every text that \<^verbatim>\<open>int(message, 16)\<close> decodes, and so on every non-empty
  text of hex digits of any length, the computation returns the hex text of two bytes
  and never raises; on a text the decoder rejects, the zero-length one included, it
  raises \<^verbatim>\<open>ValueError\<close>, and there is no other failure.
\<close>

theorem crc16_wmbus_total_when_decoded:
  "(py_int16 message = Inr v \<longrightarrow> (\<exists>b0 b1. crc16_wmbus message = Inr (hexlify [b0, b1]))) \<and>
   (message \<noteq> [] \<and> (\<forall>c\<in>set message. digit_value c < 16) \<longrightarrow> (\<exists>w. py_int16 message = Inr w)) \<and>
   (py_int16 message = Inl e \<longrightarrow> crc16_wmbus message = Inl ValueError)"
proof (intro conjI impI)
  assume "py_int16 message = Inr v"
  then show "\<exists>b0 b1. crc16_wmbus message = Inr (hexlify [b0, b1])"
    by (rule decoded_returns)
next
  assume "message \<noteq> [] \<and> (\<forall>c\<in>set message. digit_value c < 16)"
  then show "\<exists>w. py_int16 message = Inr w"
    using digits_decode by blast
next
  assume e: "py_int16 message = Inl e"
  then have "e = ValueError" by (rule py_int16_error)
  with e show "crc16_wmbus message = Inl ValueError"
    by (simp add: crc16_wmbus_undecoded)
qed

theorem crc16_wmbus_total_when_decoded_witness:
  "py_int16 ''00'' = Inr 0 \<and> (\<exists>b0 b1. crc16_wmbus ''00'' = Inr (hexlify [b0, b1])) \<and>
   digit_value (CHR ''0'') < 16 \<and> (\<exists>w. py_int16 ''00'' = Inr w) \<and>
   py_int16 ''0x'' = Inl ValueError \<and> crc16_wmbus ''0x'' = Inl ValueError"
  using crc16_wmbus_total_when_decoded [of "''00''" 0 ValueError]
    crc16_wmbus_total_when_decoded [of "''0x''" 0 ValueError]
  by (simp add: decode_simps)

text \<open>
  C4 (as stated): applied to the empty message the routine returns the bytes FF FF. On
  the empty text it returns nothing: the decoder raises.
\<close>

theorem empty_message_not_ffff: "crc16_wmbus '''' \<noteq> Inr ''ffff''"
  by (simp add: crc16_wmbus_def py_int16_empty)

text \<open>
  C4 (amended): Applied to a message that decodes to the value zero, such as the text
  \<^verbatim>\<open>00\<close>, the routine returns the complement of zero, low byte first: the bytes FF FF,
  as the hex text \<^verbatim>\<open>ffff\<close>.
\<close>

theorem zero_message_gives_ffff:
  "py_int16 message = Inr 0 \<Longrightarrow> raw_crc 0 = 0 \<and> crc16_wmbus message = Inr ''ffff''"
  by (simp add: zero_value_result raw_crc_zero)

theorem zero_message_gives_ffff_witness:
  "py_int16 ''00'' = Inr 0 \<and> crc16_wmbus ''00'' = Inr ''ffff''"
  using zero_message_gives_ffff [of "''00''"] by (simp add: zero_text_decode)

text \<open>
  C5 (as stated): whatever the length of the message, the value returned is exactly two
  bytes. What the routine returns for the first vector is the four characters
  \<^verbatim>\<open>c57a\<close>: the hex text of the two bytes, not the two bytes.
\<close>

theorem returned_text_not_two_bytes:
  "crc16_wmbus ''1444AE0C7856341201078C2027780B13436587'' = Inr ''c57a'' \<and> length ''c57a'' \<noteq> 2"
  using vector1_result by simp

text \<open>
  C5 (amended): For every input message that decodes, whatever its length, the checksum
  is packed into exactly two bytes, 16 bits, and the value returned is the hex text of
  these two bytes: exactly four characters, each a lower-case hex digit. In particular
  every non-empty message of hex digits returns such a value.
\<close>

theorem crc16_wmbus_hex_of_two_bytes:
  "(py_int16 message = Inr v \<longrightarrow>
      (\<exists>packed. pack_le_H (raw_crc v XOR 0xFFFF) = Inr packed \<and> length packed = 2 \<and>
         crc16_wmbus message = Inr (hexlify packed) \<and> length (hexlify packed) = 4 \<and>
         set (hexlify packed) \<subseteq> set ''0123456789abcdef'')) \<and>
   (message \<noteq> [] \<and> (\<forall>c\<in>set message. digit_value c < 16) \<longrightarrow>
      (\<exists>r. crc16_wmbus message = Inr r \<and> length r = 4))"
proof -
  have main: "\<exists>packed. pack_le_H (raw_crc w XOR 0xFFFF) = Inr packed \<and> length packed = 2 \<and>
      crc16_wmbus t = Inr (hexlify packed) \<and> length (hexlify packed) = 4 \<and>
      set (hexlify packed) \<subseteq> set ''0123456789abcdef''"
    if w: "py_int16 t = Inr w" for t w
  proof -
    let ?packed = "[word_of_int (raw_crc w XOR 0xFFFF),
      word_of_int (drop_bit 8 (raw_crc w XOR 0xFFFF))] :: 8 word list"
    have "pack_le_H (raw_crc w XOR 0xFFFF) = Inr ?packed"
      by (rule pack_le_H_complement)
    moreover have "length ?packed = 2" by simp
    moreover have "crc16_wmbus t = Inr (hexlify ?packed)"
      using w by (rule crc16_wmbus_decoded)
    moreover have "length (hexlify ?packed) = 4" by (simp only: length_hexlify) simp
    moreover have "set (hexlify ?packed) \<subseteq> set ''0123456789abcdef''"
      by (rule hexlify_chars)
    ultimately show ?thesis by blast
  qed
  show ?thesis
  proof (intro conjI impI)
    assume "py_int16 message = Inr v"
    then show "\<exists>packed. pack_le_H (raw_crc v XOR 0xFFFF) = Inr packed \<and> length packed = 2 \<and>
        crc16_wmbus message = Inr (hexlify packed) \<and> length (hexlify packed) = 4 \<and>
        set (hexlify packed) \<subseteq> set ''0123456789abcdef''"
      by (rule main)
  next
    assume "message \<noteq> [] \<and> (\<forall>c\<in>set message. digit_value c < 16)"
    then obtain w where "py_int16 message = Inr w"
      using digits_decode by blast
    from main [OF this] show "\<exists>r. crc16_wmbus message = Inr r \<and> length r = 4"
      by blast
  qed
qed

theorem crc16_wmbus_hex_of_two_bytes_witness:
  "py_int16 ''1444AE0C7856341201078C2027780B13436587''
     = Inr 0x1444AE0C7856341201078C2027780B13436587 \<and>
   (\<exists>packed. pack_le_H (raw_crc 0x1444AE0C7856341201078C2027780B13436587 XOR 0xFFFF) = Inr packed \<and>
      length packed = 2 \<and>
      crc16_wmbus ''1444AE0C7856341201078C2027780B13436587'' = Inr (hexlify packed) \<and>
      length (hexlify packed) = 4) \<and>
   (\<exists>r. crc16_wmbus ''123'' = Inr r \<and> length r = 4)"
proof -
  have digits: "''123'' \<noteq> [] \<and> (\<forall>c\<in>set ''123''. digit_value c < 16)"
    by (simp add: digit_value_def)
  from crc16_wmbus_hex_of_two_bytes
      [of "''1444AE0C7856341201078C2027780B13436587''" "0x1444AE0C7856341201078C2027780B13436587"]
    crc16_wmbus_hex_of_two_bytes [of "''123''" 0] vector1_decode digits
  show ?thesis by blast
qed

text \<open>
  C6 (as stated): a text with an odd number of hex digits, or with a character outside
  the hex alphabet, raises an error and is never padded. The routine accepts three
  digits, with the result of the same digits after a zero, and accepts a \<^verbatim>\<open>0x\<close> prefix.
\<close>

theorem odd_digit_count_accepted:
  "crc16_wmbus ''123'' = Inr ''1352'' \<and> crc16_wmbus ''0123'' = Inr ''1352'' \<and>
   crc16_wmbus ''0x12'' = Inr ''ca14''"
proof -
  have "py_int16 ''123'' = Inr 0x123" "py_int16 ''0123'' = Inr 0x123" "py_int16 ''0x12'' = Inr 0x12"
    by (simp_all add: decode_simps)
  then show ?thesis
    by (simp add: crc16_wmbus_decoded small_raw hexlify_simps)
qed

text \<open>
  C6 (amended): \<^verbatim>\<open>ValueError\<close> is raised, and reaches the caller, exactly when the text is
  not a base-16 integer literal: optional white space, an optional sign, an optional
  prefix \<^verbatim>\<open>0x\<close> or \<^verbatim>\<open>0X\<close> with at most one underscore after it, one or more hex digits
  with single underscores allowed between them, optional white space, and nothing else.
  So the empty text, and every text with a character that is not a hex digit, white
  space, a sign, an underscore, \<^verbatim>\<open>x\<close> or \<^verbatim>\<open>X\<close>, is rejected, and so is a text that has
  those characters in other places; a literal is always given a result. A non-empty
  text of hex digits is accepted whatever its number of digits, with the result of the
  same text after one more leading zero digit.
\<close>

theorem malformed_text_raises:
  "(crc16_wmbus message = Inl ValueError \<longleftrightarrow> \<not> literal16 message) \<and>
   (literal16 message \<longrightarrow> (\<exists>r. crc16_wmbus message = Inr r)) \<and>
   (message = [] \<or> (\<exists>c\<in>set message. \<not> tolerated_char c) \<longrightarrow>
      crc16_wmbus message = Inl ValueError) \<and>
   (message \<noteq> [] \<and> (\<forall>c\<in>set message. digit_value c < 16) \<longrightarrow>
      (\<exists>r. crc16_wmbus message = Inr r \<and> crc16_wmbus (CHR ''0'' # message) = Inr r))"
proof (intro conjI impI)
  show "crc16_wmbus message = Inl ValueError \<longleftrightarrow> \<not> literal16 message"
  proof
    assume raised: "crc16_wmbus message = Inl ValueError"
    show "\<not> literal16 message"
    proof
      assume "literal16 message"
      then obtain v where "py_int16 message = Inr v"
        using literal16_decodes by blast
      with raised show False
        by (simp add: crc16_wmbus_decoded)
    qed
  next
    assume no: "\<not> literal16 message"
    show "crc16_wmbus message = Inl ValueError"
    proof (cases "py_int16 message")
      case (Inl e)
      then have "e = ValueError" by (rule py_int16_error)
      with Inl show ?thesis by (simp add: crc16_wmbus_undecoded)
    next
      case (Inr v)
      then have "literal16 message" by (rule decoded_literal16)
      with no show ?thesis by blast
    qed
  qed
next
  assume "literal16 message"
  then obtain v where "py_int16 message = Inr v"
    using literal16_decodes by blast
  then show "\<exists>r. crc16_wmbus message = Inr r"
    using crc16_wmbus_decoded by blast
next
  assume "message = [] \<or> (\<exists>c\<in>set message. \<not> tolerated_char c)"
  then have "py_int16 message = Inl ValueError"
    using py_int16_empty py_int16_rejects by blast
  then show "crc16_wmbus message = Inl ValueError"
    by (rule crc16_wmbus_undecoded)
next
  assume a: "message \<noteq> [] \<and> (\<forall>c\<in>set message. digit_value c < 16)"
  then obtain v where v: "py_int16 message = Inr v"
    using digits_decode by blast
  from a have "py_int16 (replicate 1 (CHR ''0'') @ message) = py_int16 message"
    by (intro py_int16_leading_zeros) simp_all
  with v have "py_int16 (CHR ''0'' # message) = Inr v" by simp
  then have "crc16_wmbus (CHR ''0'' # message) = crc16_wmbus message"
    by (simp only: crc16_wmbus_decoded v)
  moreover from v obtain r where "crc16_wmbus message = Inr r"
    using crc16_wmbus_decoded by blast
  ultimately show "\<exists>r. crc16_wmbus message = Inr r \<and> crc16_wmbus (CHR ''0'' # message) = Inr r"
    by simp
qed

theorem malformed_text_raises_witness:
  "crc16_wmbus ''12x4'' = Inl ValueError \<and> \<not> literal16 ''12x4'' \<and>
   crc16_wmbus ''1 2'' = Inl ValueError \<and> \<not> literal16 ''1 2'' \<and>
   crc16_wmbus ''1__2'' = Inl ValueError \<and> \<not> literal16 ''1__2'' \<and>
   crc16_wmbus ''0x'' = Inl ValueError \<and> \<not> literal16 ''0x'' \<and>
   crc16_wmbus ''+-1'' = Inl ValueError \<and> \<not> literal16 ''+-1'' \<and>
   crc16_wmbus ''12g4'' = Inl ValueError \<and> \<not> tolerated_char (CHR ''g'') \<and>
   crc16_wmbus [] = Inl ValueError \<and> \<not> literal16 [] \<and>
   literal16 '' -0X_1_2 '' \<and> (\<exists>r. crc16_wmbus '' -0X_1_2 '' = Inr r) \<and>
   literal16 ''123'' \<and> (\<exists>r. crc16_wmbus ''123'' = Inr r \<and> crc16_wmbus ''0123'' = Inr r)"
proof -
  have rejected: "py_int16 ''12x4'' = Inl ValueError" "py_int16 ''1 2'' = Inl ValueError"
    "py_int16 ''1__2'' = Inl ValueError" "py_int16 ''0x'' = Inl ValueError"
    "py_int16 ''+-1'' = Inl ValueError"
    by (simp_all add: decode_simps)
  have accepted: "py_int16 '' -0X_1_2 '' = Inr (- 0x12)" "py_int16 ''123'' = Inr 0x123"
    by (simp_all add: decode_simps)
  have g: "\<not> tolerated_char (CHR ''g'')"
    by (simp add: tolerated_char_def digit_value_def py_isspace_def)
  have digits: "\<forall>c\<in>set ''123''. digit_value c < 16"
    by (simp add: digit_value_def)
  have r1: "crc16_wmbus ''12x4'' = Inl ValueError \<and> \<not> literal16 ''12x4''"
    using malformed_text_raises [of "''12x4''"] rejected(1) by (simp add: crc16_wmbus_undecoded)
  have r2: "crc16_wmbus ''1 2'' = Inl ValueError \<and> \<not> literal16 ''1 2''"
    using malformed_text_raises [of "''1 2''"] rejected(2) by (simp add: crc16_wmbus_undecoded)
  have r3: "crc16_wmbus ''1__2'' = Inl ValueError \<and> \<not> literal16 ''1__2''"
    using malformed_text_raises [of "''1__2''"] rejected(3) by (simp add: crc16_wmbus_undecoded)
  have r4: "crc16_wmbus ''0x'' = Inl ValueError \<and> \<not> literal16 ''0x''"
    using malformed_text_raises [of "''0x''"] rejected(4) by (simp add: crc16_wmbus_undecoded)
  have r5: "crc16_wmbus ''+-1'' = Inl ValueError \<and> \<not> literal16 ''+-1''"
    using malformed_text_raises [of "''+-1''"] rejected(5) by (simp add: crc16_wmbus_undecoded)
  have r6: "crc16_wmbus ''12g4'' = Inl ValueError"
    using malformed_text_raises [of "''12g4''"] g by simp
  have r7: "crc16_wmbus [] = Inl ValueError \<and> \<not> literal16 []"
    using malformed_text_raises [of "[]"] by blast
  have a1: "literal16 '' -0X_1_2 '' \<and> (\<exists>r. crc16_wmbus '' -0X_1_2 '' = Inr r)"
    using malformed_text_raises [of "'' -0X_1_2 ''"] crc16_wmbus_decoded [OF accepted(1)]
    by auto
  have a2: "literal16 ''123'' \<and> (\<exists>r. crc16_wmbus ''123'' = Inr r \<and> crc16_wmbus ''0123'' = Inr r)"
    using malformed_text_raises [of "''123''"] crc16_wmbus_decoded [OF accepted(2)] digits
    by auto
  from r1 r2 r3 r4 r5 r6 g r7 a1 a2 show ?thesis by blast
qed





text \<open>
  C10: For every non-empty message of hex digits, putting any number of \<^verbatim>\<open>0\<close> digits in
  front of it does not change what the routine returns, and it returns a result: two
  messages that differ only in leading zeros have the same checksum.
\<close>

theorem leading_zero_digits_ignored:
  "message \<noteq> [] \<Longrightarrow> \<forall>c\<in>set message. digit_value c < 16 \<Longrightarrow>
     crc16_wmbus (replicate k (CHR ''0'') @ message) = crc16_wmbus message \<and>
     (\<exists>r. crc16_wmbus message = Inr r)"
proof -
  assume a: "message \<noteq> []" "\<forall>c\<in>set message. digit_value c < 16"
  then have "py_int16 (replicate k (CHR ''0'') @ message) = py_int16 message"
    by (rule py_int16_leading_zeros)
  then have "crc16_wmbus (replicate k (CHR ''0'') @ message) = crc16_wmbus message"
    by (simp only: crc16_wmbus_def)
  moreover from a obtain v where "py_int16 message = Inr v"
    using digits_decode by blast
  then have "\<exists>r. crc16_wmbus message = Inr r"
    using crc16_wmbus_decoded by blast
  ultimately show ?thesis by blast
qed

theorem leading_zero_digits_ignored_witness:
  "crc16_wmbus ''0000079138C'' = crc16_wmbus ''79138C'' \<and> (\<exists>r. crc16_wmbus ''79138C'' = Inr r)"
  using leading_zero_digits_ignored [of "''79138C''" 5]
  by (simp add: digit_value_def numeral_eq_Suc)

end
